theory Spec2Isabelle
  imports Complex_Main
begin

section \<open>Training-sample extraction of tc-finder (training-images.py)\<close>

text \<open>
  The script walks over the timestamps of the storm-track table. For each one it fetches a
  GOES raster, finds the raster pixel nearest to every storm centre, saves a crop around
  it, and then draws random pixel positions for the same number of storm-free crops. An
  array \<open>free\<close> of ones records, by zeros, which pixels a crop has used.

  The arrays of numpy and xarray are modelled by their shape and their cells; floats are
  real numbers, with \<open>None\<close> for NaN on the coordinate axes. What the libraries do
  (slicing, \<open>nanargmin\<close>, \<open>randint\<close>) follows their documented behaviour. The map
  projection of pyproj, the download and the writing of files are outside the script: the
  projection is a parameter, a download is given by its outcome, and a saved crop is an
  entry of the list of saved samples. The script sets \<open>buffer\<close> to
  \<open>int(myDPI*1.5)\<close>, 249 pixels; here it is an argument, as it is of \<open>crop_image\<close>.
  The resolution \<open>myDPI\<close> and the file names only concern the rendering of a saved
  crop.
\<close>

subsection \<open>Exceptions\<close>

datatype error = RetrievalError | ValueError

subsection \<open>Arrays and Python slices\<close>

text \<open>
  A bound of a slice \<open>a[start:stop]\<close> on an axis of length \<open>n\<close>: a negative bound
  counts from the end of the axis, and every bound is then cut to \<open>0..n\<close>. The slice
  selects the indices from the first bound up to, not including, the second; none when the
  first is not below the second.
\<close>

definition slice_index :: "nat \<Rightarrow> int \<Rightarrow> nat" where
  "slice_index n i = (if i < 0 then nat (max (i + int n) 0) else min (nat i) n)"

definition slice_bounds :: "nat \<Rightarrow> int \<times> int \<Rightarrow> nat \<times> nat" where
  "slice_bounds n s = (slice_index n (fst s), slice_index n (snd s))"

record 'a ndarray =
  nrows :: nat
  ncols :: nat
  cell :: "nat \<Rightarrow> nat \<Rightarrow> 'a"

definition shape :: "'a ndarray \<Rightarrow> nat \<times> nat" where
  "shape a = (nrows a, ncols a)"

text \<open>\<open>np.ones((r, c))\<close>\<close>

definition np_ones :: "nat \<Rightarrow> nat \<Rightarrow> real ndarray" where
  "np_ones r c = \<lparr>nrows = r, ncols = c, cell = (\<lambda>i j. 1)\<rparr>"

text \<open>\<open>a[r0:r1, c0:c1]\<close>\<close>

definition getitem :: "'a ndarray \<Rightarrow> int \<times> int \<Rightarrow> int \<times> int \<Rightarrow> 'a ndarray" where
  "getitem a rs cs =
     (case slice_bounds (nrows a) rs of (rl, rh) \<Rightarrow>
      case slice_bounds (ncols a) cs of (cl, ch) \<Rightarrow>
        \<lparr>nrows = rh - rl, ncols = ch - cl, cell = (\<lambda>i j. cell a (rl + i) (cl + j))\<rparr>)"

text \<open>\<open>a[r0:r1, c0:c1] = v\<close>\<close>

definition setitem :: "'a ndarray \<Rightarrow> int \<times> int \<Rightarrow> int \<times> int \<Rightarrow> 'a \<Rightarrow> 'a ndarray" where
  "setitem a rs cs v =
     (case slice_bounds (nrows a) rs of (rl, rh) \<Rightarrow>
      case slice_bounds (ncols a) cs of (cl, ch) \<Rightarrow>
        a\<lparr>cell := (\<lambda>i j. if rl \<le> i \<and> i < rh \<and> cl \<le> j \<and> j < ch then v else cell a i j)\<rparr>)"

text \<open>\<open>(a == v).all()\<close>, true of an array without cells\<close>

definition all_eq :: "'a ndarray \<Rightarrow> 'a \<Rightarrow> bool" where
  "all_eq a v = list_all (\<lambda>i. list_all (\<lambda>j. cell a i j = v) [0..<ncols a]) [0..<nrows a]"

subsection \<open>The raster\<close>

text \<open>
  The dataset read from a GOES file: the radiances \<open>Rad\<close>, whose first axis is y and
  whose second is x, the scan angles of the two axes, and the parameters of the
  geostationary projection.
\<close>

record 'a dataset =
  Rad :: "'a ndarray"
  var_x :: "real option list"
  var_y :: "real option list"
  satHeight :: real
  satLon :: real
  satSweep :: string

subsection \<open>crop_image\<close>

text \<open>
  The crop is the slice of \<open>Rad\<close> around the centre; it is saved unless one of its
  dimensions is 0. The result is the saved crop, \<open>None\<close> when nothing is saved.
\<close>

definition crop_image :: "'a dataset \<Rightarrow> int \<Rightarrow> int \<Rightarrow> int \<Rightarrow> 'a ndarray option" where
  "crop_image ds xInd yInd buffer =
     (let data = getitem (Rad ds) (yInd - buffer, yInd + buffer) (xInd - buffer, xInd + buffer)
      in if nrows data \<noteq> 0 \<and> ncols data \<noteq> 0 then Some data else None)"

subsection \<open>The occupancy array\<close>

text \<open>\<open>free[yInd-buffer:yInd+buffer, xInd-buffer:xInd+buffer] = 0\<close>\<close>

definition mark :: "real ndarray \<Rightarrow> int \<Rightarrow> int \<Rightarrow> int \<Rightarrow> real ndarray" where
  "mark free yInd xInd buffer =
     setitem free (yInd - buffer, yInd + buffer) (xInd - buffer, xInd + buffer) 0"

text \<open>\<open>(free[yInd-buffer:yInd+buffer, xInd-buffer:xInd+buffer] == 1).all()\<close>\<close>

definition isFree :: "real ndarray \<Rightarrow> int \<Rightarrow> int \<Rightarrow> int \<Rightarrow> bool" where
  "isFree free yInd xInd buffer =
     all_eq (getitem free (yInd - buffer, yInd + buffer) (xInd - buffer, xInd + buffer)) 1"

text \<open>
  The cells that the slice around a centre selects in an array, and the cells of the
  occupancy array that are marked.
\<close>

definition window :: "'a ndarray \<Rightarrow> int \<Rightarrow> int \<Rightarrow> int \<Rightarrow> (nat \<times> nat) set" where
  "window a yInd xInd buffer =
     (case slice_bounds (nrows a) (yInd - buffer, yInd + buffer) of (rl, rh) \<Rightarrow>
      case slice_bounds (ncols a) (xInd - buffer, xInd + buffer) of (cl, ch) \<Rightarrow>
        {rl..<rh} \<times> {cl..<ch})"

definition occupied :: "real ndarray \<Rightarrow> (nat \<times> nat) set" where
  "occupied f = Set.filter (\<lambda>(i, j). cell f i j = 0) ({0..<nrows f} \<times> {0..<ncols f})"

subsection \<open>Nearest pixel\<close>

text \<open>
  \<open>np.nanargmin\<close>: the index of the least value that is not NaN, the first one when the
  least value occurs more than once; ValueError when there is no such value.
\<close>

primrec argmin_from :: "real option list \<Rightarrow> nat \<Rightarrow> (nat \<times> real) option \<Rightarrow> (nat \<times> real) option" where
  "argmin_from [] i best = best"
| "argmin_from (v # vs) i best =
     argmin_from vs (Suc i)
       (case v of None \<Rightarrow> best
        | Some a \<Rightarrow> (case best of None \<Rightarrow> Some (i, a)
                     | Some (j, b) \<Rightarrow> if a < b then Some (i, a) else best))"

definition nanargmin :: "real option list \<Rightarrow> error + nat" where
  "nanargmin vs = (case argmin_from vs 0 None of None \<Rightarrow> Inl ValueError | Some (i, m) \<Rightarrow> Inr i)"

text \<open>\<open>abs(x - t)\<close> on an axis\<close>

definition abs_diff :: "real option list \<Rightarrow> real \<Rightarrow> real option list" where
  "abs_diff axis t = map (map_option (\<lambda>a. \<bar>a - t\<bar>)) axis"

text \<open>The axes in projection units: the scan angles times the height of the satellite.\<close>

definition axis_x :: "'a dataset \<Rightarrow> real option list" where
  "axis_x ds = map (map_option (\<lambda>a. a * satHeight ds)) (var_x ds)"

definition axis_y :: "'a dataset \<Rightarrow> real option list" where
  "axis_y ds = map (map_option (\<lambda>a. a * satHeight ds)) (var_y ds)"

definition locate :: "'a dataset \<Rightarrow> real \<times> real \<Rightarrow> error + (nat \<times> nat)" where
  "locate ds t =
     (case nanargmin (abs_diff (axis_x ds) (fst t)) of Inl e \<Rightarrow> Inl e
      | Inr xInd \<Rightarrow>
          (case nanargmin (abs_diff (axis_y ds) (snd t)) of Inl e \<Rightarrow> Inl e
           | Inr yInd \<Rightarrow> Inr (xInd, yInd)))"

subsection \<open>Random draws\<close>

text \<open>
  \<open>np.random.randint(low, high)\<close> returns an integer from \<open>low\<close> up to, not including,
  \<open>high\<close>, and raises ValueError when there is none. The number \<open>r\<close> stands for the
  state of the generator: every integer of the range is the draw of some \<open>r\<close>.
\<close>

definition randint :: "nat \<Rightarrow> int \<Rightarrow> int \<Rightarrow> error + int" where
  "randint r low high =
     (if low < high then Inr (low + int (r mod nat (high - low))) else Inl ValueError)"

subsection \<open>The samples of one raster\<close>

record 'a sample =
  positive :: bool
  s_xInd :: int
  s_yInd :: int
  s_buffer :: int
  s_data :: "'a ndarray"

record 'a sampler =
  free :: "real ndarray"
  saved :: "'a sample list"
  negativeCount :: nat
  attemptCount :: nat

text \<open>The call of \<open>crop_image\<close> with its effect on the saved files.\<close>

definition save_crop :: "bool \<Rightarrow> 'a dataset \<Rightarrow> int \<Rightarrow> int \<Rightarrow> int \<Rightarrow> 'a sample list \<Rightarrow> 'a sample list" where
  "save_crop pos ds xInd yInd buffer ss =
     (case crop_image ds xInd yInd buffer of
        None \<Rightarrow> ss
      | Some data \<Rightarrow>
          ss @ [\<lparr>positive = pos, s_xInd = xInd, s_yInd = yInd, s_buffer = buffer, s_data = data\<rparr>])"

text \<open>
  The loop over the storm centres of the timestamp: project, find the nearest pixel, save
  the crop, mark its pixels. A track point is the pair (LAT, LON).
\<close>

fun positive_phase ::
  "int \<Rightarrow> (real \<Rightarrow> real \<Rightarrow> real \<times> real) \<Rightarrow> 'a dataset \<Rightarrow> (real \<times> real) list \<Rightarrow> 'a sampler
     \<Rightarrow> error option \<times> 'a sampler" where
  "positive_phase buffer p ds [] st = (None, st)"
| "positive_phase buffer p ds ((trackLat, trackLon) # rest) st =
     (case locate ds (p trackLon trackLat) of
        Inl e \<Rightarrow> (Some e, st)
      | Inr (xInd, yInd) \<Rightarrow>
          positive_phase buffer p ds rest
            (st\<lparr>saved := save_crop True ds (int xInd) (int yInd) buffer (saved st),
                free := mark (free st) (int yInd) (int xInd) buffer\<rparr>))"

text \<open>
  One pass through the body of the while loop, up to the increment of the attempt count.
  The two draws of attempt \<open>k\<close> come from the generator states \<open>rng (2k)\<close> and
  \<open>rng (2k+1)\<close>.
\<close>

definition attempt :: "int \<Rightarrow> 'a dataset \<Rightarrow> nat \<Rightarrow> nat \<Rightarrow> (nat \<Rightarrow> nat) \<Rightarrow> 'a sampler \<Rightarrow> error + 'a sampler" where
  "attempt buffer ds nx ny rng st =
     (case randint (rng (2 * attemptCount st)) buffer (int nx - buffer) of
        Inl e \<Rightarrow> Inl e
      | Inr xInd \<Rightarrow>
          (case randint (rng (2 * attemptCount st + 1)) buffer (int ny - buffer) of
             Inl e \<Rightarrow> Inl e
           | Inr yInd \<Rightarrow>
               (let st1 = (if isFree (free st) yInd xInd buffer
                           then st\<lparr>saved := save_crop False ds xInd yInd buffer (saved st),
                                   free := mark (free st) yInd xInd buffer,
                                   negativeCount := negativeCount st + 1\<rparr>
                           else st)
                in Inr (st1\<lparr>attemptCount := attemptCount st1 + 1\<rparr>))))"

text \<open>
  The while loop. \<open>target\<close> is \<open>len(indices)\<close>, the number of storm centres of the
  timestamp.
\<close>

definition maxAttemptCount :: "nat \<Rightarrow> nat" where
  "maxAttemptCount target = 5 * target"

function negative_loop ::
  "int \<Rightarrow> 'a dataset \<Rightarrow> nat \<Rightarrow> nat \<Rightarrow> nat \<Rightarrow> (nat \<Rightarrow> nat) \<Rightarrow> 'a sampler \<Rightarrow> error option \<times> 'a sampler" where
  "negative_loop buffer ds nx ny target rng st =
     (if negativeCount st < target then
        (case attempt buffer ds nx ny rng st of
           Inl e \<Rightarrow> (Some e, st)
         | Inr st' \<Rightarrow>
             if attemptCount st' > maxAttemptCount target then (None, st')
             else negative_loop buffer ds nx ny target rng st')
      else (None, st))"
  by pat_completeness auto

termination negative_loop
  by (relation "measure (\<lambda>(buffer, ds, nx, ny, target, rng, st).
        maxAttemptCount target + 1 - attemptCount st)")
     (auto simp: attempt_def Let_def split: sum.splits if_splits)

declare negative_loop.simps [simp del]

text \<open>
  The body of the try block after the download. The shape of \<open>Rad\<close> is unpacked as
  \<open>nx, ny\<close>, and the occupancy array is made with \<open>np.ones((ny, nx))\<close>. The two
  counters are set to 0 before the while loop.
\<close>

definition initial_sampler :: "'a dataset \<Rightarrow> 'a sampler" where
  "initial_sampler ds =
     (case shape (Rad ds) of (nx, ny) \<Rightarrow>
        \<lparr>free = np_ones ny nx, saved = [], negativeCount = 0, attemptCount = 0\<rparr>)"

definition process_raster ::
  "int \<Rightarrow> (real \<Rightarrow> real \<Rightarrow> string \<Rightarrow> real \<Rightarrow> real \<Rightarrow> real \<times> real) \<Rightarrow> 'a dataset
     \<Rightarrow> (real \<times> real) list \<Rightarrow> (nat \<Rightarrow> nat) \<Rightarrow> error option \<times> 'a sampler" where
  "process_raster buffer Proj ds tracks rng =
     (case shape (Rad ds) of (nx, ny) \<Rightarrow>
        (case positive_phase buffer (Proj (satHeight ds) (satLon ds) (satSweep ds)) ds tracks
                (initial_sampler ds) of
           (Some e, st) \<Rightarrow> (Some e, st)
         | (None, st) \<Rightarrow>
             negative_loop buffer ds nx ny (length tracks) rng
               (st\<lparr>negativeCount := 0, attemptCount := 0\<rparr>)))"

subsection \<open>The loop over the timestamps\<close>

text \<open>
  What the run meets at one timestamp: the outcome of the download (\<open>None\<close> when it
  raises), the track points of that timestamp, and the random generator. What the run
  leaves behind for it: the saved samples and the lines of the error log.
\<close>

record 'a date_input =
  fetched :: "'a dataset option"
  date_tracks :: "(real \<times> real) list"
  date_rng :: "nat \<Rightarrow> nat"

record 'a outcome =
  samples :: "'a sample list"
  errors_logged :: "string list"

definition process_date ::
  "int \<Rightarrow> (real \<Rightarrow> real \<Rightarrow> string \<Rightarrow> real \<Rightarrow> real \<Rightarrow> real \<times> real) \<Rightarrow> 'a date_input
     \<Rightarrow> error option \<times> 'a sample list" where
  "process_date buffer Proj d =
     (case fetched d of
        None \<Rightarrow> (Some RetrievalError, [])
      | Some ds \<Rightarrow>
          (case process_raster buffer Proj ds (date_tracks d) (date_rng d) of (e, st) \<Rightarrow> (e, saved st)))"

text \<open>The try block with its bare except, which logs and goes on.\<close>

definition try_date ::
  "int \<Rightarrow> (real \<Rightarrow> real \<Rightarrow> string \<Rightarrow> real \<Rightarrow> real \<Rightarrow> real \<times> real) \<Rightarrow> 'a date_input \<Rightarrow> 'a outcome" where
  "try_date buffer Proj d =
     (case process_date buffer Proj d of
        (None, ss) \<Rightarrow> \<lparr>samples = ss, errors_logged = []\<rparr>
      | (Some e, ss) \<Rightarrow> \<lparr>samples = ss, errors_logged = [''Error saving image'']\<rparr>)"

fun main_loop ::
  "int \<Rightarrow> (real \<Rightarrow> real \<Rightarrow> string \<Rightarrow> real \<Rightarrow> real \<Rightarrow> real \<times> real) \<Rightarrow> 'a date_input list
     \<Rightarrow> 'a outcome list" where
  "main_loop buffer Proj [] = []"
| "main_loop buffer Proj (d # ds) = try_date buffer Proj d # main_loop buffer Proj ds"

subsection \<open>Statements of the specification\<close>

text \<open>
  The pixel locator of the specification: \<open>k\<close> is the index of the value of the axis
  nearest to \<open>t\<close>, the first such index when several values are equally near. Values
  that are NaN do not count.
\<close>

definition nearest_first :: "real option list \<Rightarrow> real \<Rightarrow> nat \<Rightarrow> bool" where
  "nearest_first axis t k =
     (k < length axis \<and>
      (case axis ! k of None \<Rightarrow> False
       | Some a \<Rightarrow>
           (\<forall>j\<in>{0..<length axis}.
              case axis ! j of None \<Rightarrow> True
              | Some b \<Rightarrow> \<bar>a - t\<bar> \<le> \<bar>b - t\<bar> \<and> (j < k \<longrightarrow> \<bar>a - t\<bar> < \<bar>b - t\<bar>))))"

text \<open>
  The footprint of a saved sample: the pixels of the raster that its crop holds. A sample
  is full size when its crop has \<open>2 * buffer\<close> rows and columns, and inside the raster
  when the window around its centre does not reach beyond the first or last row or
  column.
\<close>

definition footprint :: "'a dataset \<Rightarrow> 'a sample \<Rightarrow> (nat \<times> nat) set" where
  "footprint ds s = window (Rad ds) (s_yInd s) (s_xInd s) (s_buffer s)"

definition footprints :: "'a dataset \<Rightarrow> 'a sample list \<Rightarrow> (nat \<times> nat) set" where
  "footprints ds ss = (\<Union>s\<in>set ss. footprint ds s)"

definition full_size :: "'a sample \<Rightarrow> bool" where
  "full_size s = (shape (s_data s) = (nat (2 * s_buffer s), nat (2 * s_buffer s)))"

definition inside :: "'a dataset \<Rightarrow> 'a sample \<Rightarrow> bool" where
  "inside ds s =
     (0 \<le> s_yInd s - s_buffer s \<and> s_yInd s + s_buffer s \<le> int (nrows (Rad ds)) \<and>
      0 \<le> s_xInd s - s_buffer s \<and> s_xInd s + s_buffer s \<le> int (ncols (Rad ds)))"

text \<open>
  No negative sample overlaps another sample: two samples at different places of the list,
  one of them negative, have no pixel in common.
\<close>

definition no_overlap :: "'a dataset \<Rightarrow> 'a sample list \<Rightarrow> bool" where
  "no_overlap ds ss =
     (\<forall>i\<in>{0..<length ss}. \<forall>j\<in>{0..<length ss}.
        i \<noteq> j \<and> (\<not> positive (ss ! i) \<or> \<not> positive (ss ! j))
          \<longrightarrow> footprint ds (ss ! i) \<inter> footprint ds (ss ! j) = {})"

text \<open>The negative samples of a list.\<close>

definition negatives :: "'a sample list \<Rightarrow> 'a sample list" where
  "negatives ss = filter (\<lambda>s. \<not> positive s) ss"

text \<open>
  The state of a sampler agrees with the raster when the mask has the shape of the raster,
  the marked pixels are the pixels of the saved crops, and no negative sample overlaps
  another sample.
\<close>

definition consistent :: "'a dataset \<Rightarrow> 'a sampler \<Rightarrow> bool" where
  "consistent ds st =
     (nrows (free st) = nrows (Rad ds) \<and> ncols (free st) = ncols (Rad ds) \<and>
      occupied (free st) = footprints ds (saved st) \<and> no_overlap ds (saved st))"

text \<open>
  The negative samples of a sampler are sized when each of them has buffer \<open>buffer\<close>, is
  full size and lies inside the raster, and, for a positive buffer, there are as many of
  them as the count of accepted draws says.
\<close>

definition sized :: "int \<Rightarrow> 'a dataset \<Rightarrow> 'a sampler \<Rightarrow> bool" where
  "sized buffer ds st =
     ((\<forall>s\<in>set (negatives (saved st)). s_buffer s = buffer \<and> full_size s \<and> inside ds s) \<and>
      (0 < buffer \<longrightarrow> length (negatives (saved st)) = negativeCount st))"

subsection \<open>Example inputs\<close>

text \<open>
  A raster of \<open>r\<close> rows and \<open>c\<close> columns whose axes are the pixel numbers, and a
  projection that returns its arguments, so that the track point (LAT, LON) = (i, j) is
  the pixel of row \<open>i\<close> and column \<open>j\<close>.
\<close>

definition ex_raster :: "nat \<Rightarrow> nat \<Rightarrow> real dataset" where
  "ex_raster r c =
     \<lparr>Rad = np_ones r c, var_x = map (\<lambda>k. Some (real k)) [0..<c],
      var_y = map (\<lambda>k. Some (real k)) [0..<r], satHeight = 1, satLon = 0, satSweep = ''x''\<rparr>"

definition ex_Proj :: "real \<Rightarrow> real \<Rightarrow> string \<Rightarrow> real \<Rightarrow> real \<Rightarrow> real \<times> real" where
  "ex_Proj h lon0 sweep lon lat = (lon, lat)"

definition rng_const :: "nat \<Rightarrow> nat \<Rightarrow> nat" where
  "rng_const v k = v"

definition ex_tracks :: "(real \<times> real) list" where
  "ex_tracks = [(1, 1)]"

text \<open>A storm centre at row 1 and column 4.\<close>

definition ex_tracks_edge :: "(real \<times> real) list" where
  "ex_tracks_edge = [(1, 4)]"

text \<open>
  Two timestamps: one whose download raises, and one with a raster of 2 by 2 pixels and a
  storm centre at pixel (1, 1).
\<close>

definition ex_date_failed :: "real date_input" where
  "ex_date_failed = \<lparr>fetched = None, date_tracks = ex_tracks, date_rng = rng_const 0\<rparr>"

definition ex_date_small :: "real date_input" where
  "ex_date_small = \<lparr>fetched = Some (ex_raster 2 2), date_tracks = ex_tracks, date_rng = rng_const 0\<rparr>"

section \<open>Properties\<close>

subsection \<open>Slices, windows and marks\<close>

lemma slice_index_le: "slice_index n i \<le> n"
  by (auto simp: slice_index_def max_def)

lemma all_eq_iff: "all_eq a v \<longleftrightarrow> (\<forall>i<nrows a. \<forall>j<ncols a. cell a i j = v)"
  by (auto simp: all_eq_def list_all_iff)

lemma window_subset: "window a yInd xInd buffer \<subseteq> {0..<nrows a} \<times> {0..<ncols a}"
  using slice_index_le[of "nrows a" "yInd + buffer"] slice_index_le[of "ncols a" "xInd + buffer"]
  by (auto simp: window_def slice_bounds_def)

lemma isFree_iff:
  "isFree f yInd xInd buffer \<longleftrightarrow> (\<forall>(i, j)\<in>window f yInd xInd buffer. cell f i j = 1)"
proof
  assume a: "isFree f yInd xInd buffer"
  show "\<forall>(i, j)\<in>window f yInd xInd buffer. cell f i j = 1"
  proof (clarify)
    fix i j assume m: "(i, j) \<in> window f yInd xInd buffer"
    define rl where "rl = slice_index (nrows f) (yInd - buffer)"
    define cl where "cl = slice_index (ncols f) (xInd - buffer)"
    from m have "rl \<le> i" "i < slice_index (nrows f) (yInd + buffer)"
      "cl \<le> j" "j < slice_index (ncols f) (xInd + buffer)"
      by (auto simp: window_def slice_bounds_def rl_def cl_def)
    then have "i - rl < slice_index (nrows f) (yInd + buffer) - rl"
      "j - cl < slice_index (ncols f) (xInd + buffer) - cl" "rl + (i - rl) = i" "cl + (j - cl) = j"
      by auto
    with a show "cell f i j = 1"
      unfolding isFree_def all_eq_iff getitem_def slice_bounds_def rl_def[symmetric] cl_def[symmetric]
      by (simp add: rl_def[symmetric] cl_def[symmetric]) metis
  qed
next
  assume a: "\<forall>(i, j)\<in>window f yInd xInd buffer. cell f i j = 1"
  show "isFree f yInd xInd buffer"
    unfolding isFree_def all_eq_iff getitem_def slice_bounds_def
    using a by (auto simp: window_def slice_bounds_def)
qed

lemma mark_dims [simp]:
  "nrows (mark f yInd xInd buffer) = nrows f" "ncols (mark f yInd xInd buffer) = ncols f"
  by (simp_all add: mark_def setitem_def split: prod.splits)

lemma mark_cell:
  "cell (mark f yInd xInd buffer) i j = (if (i, j) \<in> window f yInd xInd buffer then 0 else cell f i j)"
  by (simp add: mark_def setitem_def window_def split: prod.splits)

lemma window_mark [simp]:
  "window (mark f y x b) yInd xInd buffer = window f yInd xInd buffer"
  by (simp add: window_def)

lemma mem_occupied: "(i, j) \<in> occupied f \<longleftrightarrow> i < nrows f \<and> j < ncols f \<and> cell f i j = 0"
  by (auto simp: occupied_def)

lemma occupied_mark:
  "occupied (mark f yInd xInd buffer) = occupied f \<union> window f yInd xInd buffer"
  using window_subset[of f yInd xInd buffer]
  by (auto simp: mem_occupied mark_cell)

lemma mark_idem: "mark (mark f yInd xInd buffer) yInd xInd buffer = mark f yInd xInd buffer"
  by (simp add: mark_def setitem_def split: prod.splits) (auto simp: fun_eq_iff)

subsection \<open>Marking and the free check\<close>

text \<open>
  Claim C6, as the code has it. After the pixels of a window are marked, all of them are
  occupied, and the free check on the same window fails provided the window has a pixel;
  marking the window a second time changes nothing. The slice of a window may select no
  pixel, and the check of an empty selection succeeds.
\<close>

theorem mark_then_isFree:
  "(window f yInd xInd buffer \<noteq> {} \<longrightarrow> \<not> isFree (mark f yInd xInd buffer) yInd xInd buffer)
   \<and> window f yInd xInd buffer \<subseteq> occupied (mark f yInd xInd buffer)
   \<and> mark (mark f yInd xInd buffer) yInd xInd buffer = mark f yInd xInd buffer
   \<and> occupied (mark (mark f yInd xInd buffer) yInd xInd buffer) = occupied (mark f yInd xInd buffer)"
proof -
  have "\<not> isFree (mark f yInd xInd buffer) yInd xInd buffer" if "window f yInd xInd buffer \<noteq> {}"
  proof -
    from that obtain i j where "(i, j) \<in> window f yInd xInd buffer" by auto
    then show ?thesis by (auto simp: isFree_iff mark_cell)
  qed
  then show ?thesis by (simp add: mark_idem occupied_mark)
qed

theorem mark_then_isFree_witness:
  "window (np_ones 4 4) 1 1 1 \<noteq> {} \<and> \<not> isFree (mark (np_ones 4 4) 1 1 1) 1 1 1"
  using mark_then_isFree[of "np_ones 4 4" 1 1 1]
  by (simp add: window_def slice_bounds_def slice_index_def np_ones_def)

text \<open>
  On a mask of 500 by 500 pixels the window of buffer 10 around row 0 and column 250 is
  the slice \<open>[-10:10, 240:260]\<close>, which selects no row: after the mark, the free check
  on the same window still succeeds.
\<close>

theorem isFree_after_mark_empty_window:
  "isFree (mark (np_ones 500 500) 0 250 10) 0 250 10"
  by (simp add: isFree_def all_eq_def getitem_def slice_bounds_def slice_index_def mark_def
      setitem_def np_ones_def)

subsection \<open>The while loop of the negative samples\<close>

lemma attempt_attemptCount:
  "attempt buffer ds nx ny rng st = Inr st' \<Longrightarrow> attemptCount st' = attemptCount st + 1"
  by (auto simp: attempt_def Let_def split: sum.splits if_splits)

text \<open>An invariant of the loop body is an invariant of the loop.\<close>

lemma negative_loop_invariant:
  assumes step: "\<And>s s'. P s \<Longrightarrow> attempt buffer ds nx ny rng s = Inr s' \<Longrightarrow> P s'"
    and init: "P st"
  shows "P (snd (negative_loop buffer ds nx ny target rng st))"
  using step init
proof (induction buffer ds nx ny target rng st rule: negative_loop.induct)
  case (1 buffer ds nx ny target rng st)
  show ?case
  proof (cases "negativeCount st < target")
    case False
    then show ?thesis using "1.prems"(2) by (simp add: negative_loop.simps)
  next
    case lt: True
    show ?thesis
    proof (cases "attempt buffer ds nx ny rng st")
      case (Inl e)
      then show ?thesis using lt "1.prems"(2) by (simp add: negative_loop.simps)
    next
      case (Inr st')
      have P': "P st'" using "1.prems"(1)[OF "1.prems"(2) Inr] .
      show ?thesis
      proof (cases "attemptCount st' > maxAttemptCount target")
        case True
        then show ?thesis using lt Inr P' by (simp add: negative_loop.simps)
      next
        case False
        from "1.IH"[OF lt Inr False "1.prems"(1) P']
        show ?thesis using lt Inr False
          by (simp add: negative_loop.simps[of buffer ds nx ny target rng st])
      qed
    qed
  qed
qed

lemma negative_loop_attempts:
  "attemptCount st \<le> 5 * target \<Longrightarrow>
   attemptCount (snd (negative_loop buffer ds nx ny target rng st)) \<le> 5 * target + 1"
proof (induction buffer ds nx ny target rng st rule: negative_loop.induct)
  case (1 buffer ds nx ny target rng st)
  show ?case
  proof (cases "negativeCount st < target")
    case False
    then show ?thesis using "1.prems" by (simp add: negative_loop.simps)
  next
    case True
    show ?thesis
    proof (cases "attempt buffer ds nx ny rng st")
      case (Inl e)
      then show ?thesis using True "1.prems" by (simp add: negative_loop.simps)
    next
      case (Inr st')
      have c: "attemptCount st' = attemptCount st + 1"
        using Inr by (rule attempt_attemptCount)
      show ?thesis
      proof (cases "attemptCount st' > maxAttemptCount target")
        case True
        then show ?thesis using \<open>negativeCount st < target\<close> Inr c "1.prems"
          by (simp add: negative_loop.simps maxAttemptCount_def)
      next
        case False
        then have "attemptCount st' \<le> 5 * target" by (simp add: maxAttemptCount_def)
        from "1.IH"[OF \<open>negativeCount st < target\<close> Inr False this]
        show ?thesis using \<open>negativeCount st < target\<close> Inr False
          by (simp add: negative_loop.simps[of buffer ds nx ny target rng st])
      qed
    qed
  qed
qed

text \<open>
  Claim C2, as the code has it. The loop ends, whatever the target, the mask and the
  draws are: \<open>negative_loop\<close> is a total function, its recursion descends on
  \<open>maxAttemptCount + 1 - attemptCount\<close>. Every pass that reaches the end of the body counts
  as one attempt, and the loop, entered with both counters at 0, makes at most
  \<open>5 * target + 1\<close> attempts: the test \<open>attemptCount > maxAttemptCount\<close> comes after the
  increment, and lets the attempt of number \<open>5 * target + 1\<close> through.
\<close>

theorem negative_loop_attempt_bound:
  "attemptCount (snd (negative_loop buffer ds nx ny target rng
      (st\<lparr>negativeCount := 0, attemptCount := 0\<rparr>))) \<le> 5 * target + 1"
  by (rule negative_loop_attempts) simp

text \<open>
  A raster of 4 by 4 pixels, buffer 1, one storm centre at pixel (1, 1), and a generator
  that always draws pixel (1, 1): every draw is rejected, and the loop ends without an
  error after 6 attempts, with a target of 1.
\<close>

theorem negative_loop_six_attempts:
  "fst (process_raster 1 ex_Proj (ex_raster 4 4) ex_tracks (rng_const 0)) = None \<and>
   length ex_tracks = 1 \<and>
   attemptCount (snd (process_raster 1 ex_Proj (ex_raster 4 4) ex_tracks (rng_const 0))) = 6"
  by code_simp

subsection \<open>The crop\<close>

text \<open>
  Claim C3, as the code has it. The crop is the slice
  \<open>Rad[yInd-buffer:yInd+buffer, xInd-buffer:xInd+buffer]\<close>. For a centre in the raster
  that is at least \<open>buffer\<close> away from row 0 and from column 0, the slice is the window
  from \<open>yInd - buffer\<close> to \<open>yInd + buffer\<close> and from \<open>xInd - buffer\<close> to
  \<open>xInd + buffer\<close>, cut at the last row and the last column, and the crop is saved. For
  a centre less than \<open>buffer\<close> away from row 0 (or column 0) of a raster with at least
  \<open>2 * buffer\<close> rows (columns), the slice selects nothing and no crop is saved.
  \<open>crop_image\<close> raises in neither case.
\<close>

theorem crop_image_window:
  "(0 < buffer \<and> buffer \<le> yInd \<and> yInd < int (nrows (Rad ds)) \<and>
    buffer \<le> xInd \<and> xInd < int (ncols (Rad ds)) \<longrightarrow>
      crop_image ds xInd yInd buffer =
        Some \<lparr>nrows = min (nat (yInd + buffer)) (nrows (Rad ds)) - nat (yInd - buffer),
              ncols = min (nat (xInd + buffer)) (ncols (Rad ds)) - nat (xInd - buffer),
              cell = (\<lambda>i j. cell (Rad ds) (nat (yInd - buffer) + i) (nat (xInd - buffer) + j))\<rparr>
      \<and> window (Rad ds) yInd xInd buffer =
          {nat (yInd - buffer)..<min (nat (yInd + buffer)) (nrows (Rad ds))} \<times>
          {nat (xInd - buffer)..<min (nat (xInd + buffer)) (ncols (Rad ds))})
   \<and> (0 \<le> yInd \<and> yInd < buffer \<and> 2 * buffer \<le> int (nrows (Rad ds)) \<longrightarrow>
        crop_image ds xInd yInd buffer = None)
   \<and> (0 \<le> xInd \<and> xInd < buffer \<and> 2 * buffer \<le> int (ncols (Rad ds)) \<longrightarrow>
        crop_image ds xInd yInd buffer = None)"
proof (intro conjI impI)
  assume a: "0 < buffer \<and> buffer \<le> yInd \<and> yInd < int (nrows (Rad ds)) \<and>
    buffer \<le> xInd \<and> xInd < int (ncols (Rad ds))"
  then have r: "slice_bounds (nrows (Rad ds)) (yInd - buffer, yInd + buffer) =
      (nat (yInd - buffer), min (nat (yInd + buffer)) (nrows (Rad ds)))"
    and c: "slice_bounds (ncols (Rad ds)) (xInd - buffer, xInd + buffer) =
      (nat (xInd - buffer), min (nat (xInd + buffer)) (ncols (Rad ds)))"
    by (auto simp: slice_bounds_def slice_index_def)
  from a have "nat (yInd - buffer) < min (nat (yInd + buffer)) (nrows (Rad ds))"
    "nat (xInd - buffer) < min (nat (xInd + buffer)) (ncols (Rad ds))"
    by auto
  then show "crop_image ds xInd yInd buffer =
        Some \<lparr>nrows = min (nat (yInd + buffer)) (nrows (Rad ds)) - nat (yInd - buffer),
              ncols = min (nat (xInd + buffer)) (ncols (Rad ds)) - nat (xInd - buffer),
              cell = (\<lambda>i j. cell (Rad ds) (nat (yInd - buffer) + i) (nat (xInd - buffer) + j))\<rparr>"
    by (simp add: crop_image_def getitem_def r c Let_def)
  show "window (Rad ds) yInd xInd buffer =
          {nat (yInd - buffer)..<min (nat (yInd + buffer)) (nrows (Rad ds))} \<times>
          {nat (xInd - buffer)..<min (nat (xInd + buffer)) (ncols (Rad ds))}"
    by (simp add: window_def r c)
next
  assume "0 \<le> yInd \<and> yInd < buffer \<and> 2 * buffer \<le> int (nrows (Rad ds))"
  then show "crop_image ds xInd yInd buffer = None"
    by (auto simp: crop_image_def getitem_def slice_bounds_def slice_index_def Let_def split: prod.splits)
next
  assume "0 \<le> xInd \<and> xInd < buffer \<and> 2 * buffer \<le> int (ncols (Rad ds))"
  then show "crop_image ds xInd yInd buffer = None"
    by (auto simp: crop_image_def getitem_def slice_bounds_def slice_index_def Let_def split: prod.splits)
qed

theorem crop_image_window_witness:
  "map_option shape (crop_image (ex_raster 500 500) 250 495 10) = Some (15, 20)
   \<and> crop_image (ex_raster 500 500) 250 5 10 = None
   \<and> crop_image (ex_raster 500 500) 5 250 10 = None"
  using crop_image_window[of 10 495 "ex_raster 500 500" 250]
     crop_image_window[of 10 5 "ex_raster 500 500" 250]
     crop_image_window[of 10 250 "ex_raster 500 500" 5]
  by (simp add: ex_raster_def np_ones_def shape_def)

text \<open>
  The centre at row 0 and column 250 of a raster of 500 by 500 pixels, with buffer 10: the
  rows of the crop are the slice \<open>[-10:10]\<close>, which is empty, and the sample is dropped.
\<close>

theorem crop_image_row0_dropped: "crop_image (ex_raster 500 500) 250 0 10 = None"
  by (simp add: crop_image_def ex_raster_def getitem_def slice_bounds_def slice_index_def np_ones_def)

subsection \<open>The fresh mask\<close>

lemma initial_sampler_free:
  "shape (free (initial_sampler ds)) = (ncols (Rad ds), nrows (Rad ds))"
  "occupied (free (initial_sampler ds)) = {}"
  "saved (initial_sampler ds) = []"
  by (auto simp: initial_sampler_def shape_def np_ones_def occupied_def)

text \<open>
  For a square raster the fresh mask has the shape of the raster, and none of its pixels
  is marked.
\<close>

lemma initial_sampler_square:
  "nrows (Rad ds) = ncols (Rad ds) \<Longrightarrow>
     shape (free (initial_sampler ds)) = shape (Rad ds) \<and> occupied (free (initial_sampler ds)) = {}"
  by (simp add: initial_sampler_free) (simp add: shape_def)

text \<open>
  Claim C9 at a raster of 2 rows and 3 columns: \<open>nx, ny = ds.Rad.shape\<close> gives the
  number of rows to \<open>nx\<close> and the number of columns to \<open>ny\<close>, and the mask
  \<open>np.ones((ny, nx))\<close> has 3 rows and 2 columns.
\<close>

theorem mask_shape_transposed:
  "shape (Rad (ex_raster 2 3)) = (2, 3) \<and> shape (free (initial_sampler (ex_raster 2 3))) = (3, 2)"
  by (simp add: ex_raster_def np_ones_def shape_def initial_sampler_def)

subsection \<open>The nearest pixel\<close>

lemma argmin_from_Some_acc: "\<exists>r. argmin_from vs i (Some x) = Some r"
  by (induction vs arbitrary: i x) (auto split: option.splits)

lemma argmin_from_None: "argmin_from vs i None = None \<longleftrightarrow> (\<forall>v\<in>set vs. v = None)"
proof (induction vs arbitrary: i)
  case Nil
  show ?case by simp
next
  case (Cons v vs)
  show ?case
  proof (cases v)
    case None
    then show ?thesis using Cons by simp
  next
    case (Some a)
    then show ?thesis using argmin_from_Some_acc[of vs "Suc i" "(i, a)"] by auto
  qed
qed

lemma argmin_from_Some:
  "argmin_from vs i best = Some (k, m) \<Longrightarrow>
     (\<forall>j<length vs. \<forall>v. vs ! j = Some v \<longrightarrow> m \<le> v) \<and>
     (\<forall>j b. best = Some (j, b) \<longrightarrow> m \<le> b) \<and>
     (best = Some (k, m) \<or>
      (i \<le> k \<and> k < i + length vs \<and> vs ! (k - i) = Some m \<and>
       (\<forall>j<k - i. \<forall>v. vs ! j = Some v \<longrightarrow> m < v) \<and>
       (\<forall>j b. best = Some (j, b) \<longrightarrow> m < b)))"
proof (induction vs arbitrary: i best)
  case Nil
  then show ?case by simp
next
  case (Cons v vs)
  define best' where "best' = (case v of None \<Rightarrow> best
        | Some a \<Rightarrow> (case best of None \<Rightarrow> Some (i, a)
                     | Some (j, b) \<Rightarrow> if a < b then Some (i, a) else best))"
  have run: "argmin_from vs (Suc i) best' = Some (k, m)"
    using Cons.prems by (simp add: best'_def)
  note IH = Cons.IH[OF run]
  have tail: "\<forall>j<length vs. \<forall>w. vs ! j = Some w \<longrightarrow> m \<le> w" using IH by blast
  have acc: "\<forall>j b. best' = Some (j, b) \<longrightarrow> m \<le> b" using IH by blast
  have alt: "best' = Some (k, m) \<or>
      (Suc i \<le> k \<and> k < Suc i + length vs \<and> vs ! (k - Suc i) = Some m \<and>
       (\<forall>j<k - Suc i. \<forall>w. vs ! j = Some w \<longrightarrow> m < w) \<and>
       (\<forall>j b. best' = Some (j, b) \<longrightarrow> m < b))" using IH by blast
  have head: "\<forall>a. v = Some a \<longrightarrow> m \<le> a"
    using acc by (auto simp: best'_def split: option.splits if_splits)
  have old: "\<forall>j b. best = Some (j, b) \<longrightarrow> m \<le> b"
    using acc by (auto simp: best'_def split: option.splits if_splits)
  have all: "\<forall>j<length (v # vs). \<forall>w. (v # vs) ! j = Some w \<longrightarrow> m \<le> w"
    using head tail by (auto simp: nth_Cons split: nat.splits)
  from alt have "best = Some (k, m) \<or>
      (i \<le> k \<and> k < i + length (v # vs) \<and> (v # vs) ! (k - i) = Some m \<and>
       (\<forall>j<k - i. \<forall>w. (v # vs) ! j = Some w \<longrightarrow> m < w) \<and>
       (\<forall>j b. best = Some (j, b) \<longrightarrow> m < b))"
  proof
    assume b: "best' = Some (k, m)"
    show ?thesis
    proof (cases "best = Some (k, m)")
      case True
      then show ?thesis by simp
    next
      case False
      with b have "k = i \<and> v = Some m \<and> (\<forall>j b. best = Some (j, b) \<longrightarrow> m < b)"
        by (auto simp: best'_def split: option.splits if_splits)
      then show ?thesis by simp
    qed
  next
    assume n: "Suc i \<le> k \<and> k < Suc i + length vs \<and> vs ! (k - Suc i) = Some m \<and>
       (\<forall>j<k - Suc i. \<forall>w. vs ! j = Some w \<longrightarrow> m < w) \<and>
       (\<forall>j b. best' = Some (j, b) \<longrightarrow> m < b)"
    then have "Suc i \<le> k" by blast
    then have ki: "k - i = Suc (k - Suc i)" by arith
    from n have h: "\<forall>a. v = Some a \<longrightarrow> m < a"
      by (auto simp: best'_def split: option.splits if_splits)
    from n have o: "\<forall>j b. best = Some (j, b) \<longrightarrow> m < b"
      by (auto simp: best'_def split: option.splits if_splits)
    have "\<forall>j<k - i. \<forall>w. (v # vs) ! j = Some w \<longrightarrow> m < w"
      using n h unfolding ki by (auto simp: nth_Cons split: nat.splits)
    with n o show ?thesis unfolding ki by simp
  qed
  with all old show ?case by blast
qed

lemma nanargmin_Inr:
  assumes "nanargmin vs = Inr k"
  shows "k < length vs \<and> (\<exists>m. vs ! k = Some m \<and>
     (\<forall>j<length vs. \<forall>v. vs ! j = Some v \<longrightarrow> m \<le> v \<and> (j < k \<longrightarrow> m < v)))"
proof -
  from assms obtain m where "argmin_from vs 0 None = Some (k, m)"
    by (auto simp: nanargmin_def split: option.splits)
  from argmin_from_Some[OF this] show ?thesis by auto
qed

lemma nanargmin_returns:
  "(\<exists>k. nanargmin vs = Inr k) \<longleftrightarrow> (\<exists>a. Some a \<in> set vs)"
proof -
  have "(\<exists>k. nanargmin vs = Inr k) \<longleftrightarrow> argmin_from vs 0 None \<noteq> None"
    by (auto simp: nanargmin_def split: option.splits)
  also have "\<dots> \<longleftrightarrow> (\<exists>a. Some a \<in> set vs)"
    unfolding argmin_from_None by (metis not_Some_eq)
  finally show ?thesis .
qed

lemma abs_diff_nth:
  "j < length axis \<Longrightarrow> abs_diff axis t ! j = map_option (\<lambda>a. \<bar>a - t\<bar>) (axis ! j)"
  by (simp add: abs_diff_def)

lemma nanargmin_abs_diff:
  assumes "nanargmin (abs_diff axis t) = Inr k"
  shows "nearest_first axis t k"
proof -
  from nanargmin_Inr[OF assms] obtain m where k: "k < length axis"
    and m: "abs_diff axis t ! k = Some m"
    and least: "\<forall>j<length axis. \<forall>v. abs_diff axis t ! j = Some v \<longrightarrow> m \<le> v \<and> (j < k \<longrightarrow> m < v)"
    by (auto simp: abs_diff_def)
  from k m obtain a where a: "axis ! k = Some a" "m = \<bar>a - t\<bar>"
    by (auto simp: abs_diff_nth)
  have "\<bar>a - t\<bar> \<le> \<bar>b - t\<bar> \<and> (j < k \<longrightarrow> \<bar>a - t\<bar> < \<bar>b - t\<bar>)"
    if "j < length axis" "axis ! j = Some b" for j b
    using least that a by (simp add: abs_diff_nth)
  then show ?thesis using k a by (auto simp: nearest_first_def split: option.splits)
qed

lemma nearest_first_unique:
  assumes "nearest_first axis t k" "nearest_first axis t k'"
  shows "k = k'"
proof (rule ccontr)
  assume "k \<noteq> k'"
  then consider "k < k'" | "k' < k" by linarith
  then show False using assms
    by cases (auto simp: nearest_first_def split: option.splits, (fastforce)+)
qed


lemma abs_diff_axis_returns:
  assumes "\<exists>a. Some a \<in> set angles"
  shows "\<exists>k. nanargmin (abs_diff (map (map_option (\<lambda>a. a * h)) angles) t) = Inr k"
proof -
  from assms obtain a where "Some a \<in> set angles" by blast
  then have "Some \<bar>a * h - t\<bar> \<in> set (abs_diff (map (map_option (\<lambda>a. a * h)) angles) t)"
    by (force simp: abs_diff_def)
  then show ?thesis unfolding nanargmin_returns by blast
qed

text \<open>
  Claim C7. On axes that hold a number, the locator returns a pair of indices; the column
  index is what \<open>nanargmin\<close> finds on the x axis alone and the row index what it finds
  on the y axis alone, and each is the index of the least absolute difference on its
  axis, the first one where the least difference occurs more than once.
\<close>

theorem locate_nearest_first:
  assumes "\<exists>a. Some a \<in> set (var_x ds)" and "\<exists>a. Some a \<in> set (var_y ds)"
  shows "\<exists>xInd yInd. locate ds (planarX, planarY) = Inr (xInd, yInd) \<and>
     nanargmin (abs_diff (axis_x ds) planarX) = Inr xInd \<and>
     nanargmin (abs_diff (axis_y ds) planarY) = Inr yInd \<and>
     nearest_first (axis_x ds) planarX xInd \<and> nearest_first (axis_y ds) planarY yInd"
proof -
  from abs_diff_axis_returns[OF assms(1)] obtain xInd
    where x: "nanargmin (abs_diff (axis_x ds) planarX) = Inr xInd"
    unfolding axis_x_def by blast
  from abs_diff_axis_returns[OF assms(2)] obtain yInd
    where y: "nanargmin (abs_diff (axis_y ds) planarY) = Inr yInd"
    unfolding axis_y_def by blast
  have "locate ds (planarX, planarY) = Inr (xInd, yInd)"
    by (simp add: locate_def x y)
  with x y nanargmin_abs_diff[OF x] nanargmin_abs_diff[OF y] show ?thesis by blast
qed


theorem locate_nearest_first_witness:
  "locate (ex_raster 4 4) (3 / 2, 5 / 2) = Inr (1, 2) \<and>
   nearest_first (axis_x (ex_raster 4 4)) (3 / 2) 1 \<and>
   nearest_first (axis_y (ex_raster 4 4)) (5 / 2) 2"
proof -
  have "\<exists>a. Some a \<in> set (var_x (ex_raster 4 4))" "\<exists>a. Some a \<in> set (var_y (ex_raster 4 4))"
    by (auto simp: ex_raster_def image_iff intro!: exI[of _ "0::real"] bexI[of _ "0::nat"])
  from locate_nearest_first[OF this, of "3 / 2" "5 / 2"] obtain xInd yInd
    where l: "locate (ex_raster 4 4) (3 / 2, 5 / 2) = Inr (xInd, yInd)"
      and n: "nearest_first (axis_x (ex_raster 4 4)) (3 / 2) xInd"
        "nearest_first (axis_y (ex_raster 4 4)) (5 / 2) yInd"
    by blast
  have "locate (ex_raster 4 4) (3 / 2, 5 / 2) = Inr (1, 2)"
    by code_simp
  with l have "xInd = 1" "yInd = 2" by simp_all
  with l n show ?thesis by simp
qed


text \<open>
  Claim C8. In a dataset whose axes have the lengths of the two dimensions of \<open>Rad\<close>,
  as the coordinates of an xarray dataset have, and hold a number each, the pixel of a
  projected point is a pixel of the raster. This holds of every projection, and so of the
  geostationary one on the visible disc.
\<close>

theorem locate_within_raster:
  assumes "length (var_y ds) = nrows (Rad ds)" and "length (var_x ds) = ncols (Rad ds)"
    and "\<exists>a. Some a \<in> set (var_x ds)" and "\<exists>a. Some a \<in> set (var_y ds)"
  shows "\<exists>xInd yInd.
     locate ds (Proj (satHeight ds) (satLon ds) (satSweep ds) lon lat) = Inr (xInd, yInd) \<and>
     yInd < nrows (Rad ds) \<and> xInd < ncols (Rad ds)"
proof -
  obtain tx ty where t: "Proj (satHeight ds) (satLon ds) (satSweep ds) lon lat = (tx, ty)"
    by (cases "Proj (satHeight ds) (satLon ds) (satSweep ds) lon lat")
  from abs_diff_axis_returns[OF assms(3)] obtain xInd
    where x: "nanargmin (abs_diff (axis_x ds) tx) = Inr xInd"
    unfolding axis_x_def by blast
  from abs_diff_axis_returns[OF assms(4)] obtain yInd
    where y: "nanargmin (abs_diff (axis_y ds) ty) = Inr yInd"
    unfolding axis_y_def by blast
  have "xInd < length (var_x ds)" "yInd < length (var_y ds)"
    using nanargmin_Inr[OF x] nanargmin_Inr[OF y] by (simp_all add: abs_diff_def axis_x_def axis_y_def)
  moreover have "locate ds (tx, ty) = Inr (xInd, yInd)"
    by (simp add: locate_def x y)
  ultimately show ?thesis using assms(1,2) t by simp
qed


theorem locate_within_raster_witness:
  "length (var_y (ex_raster 3 5)) = nrows (Rad (ex_raster 3 5)) \<and>
   length (var_x (ex_raster 3 5)) = ncols (Rad (ex_raster 3 5)) \<and>
   locate (ex_raster 3 5) (ex_Proj 1 0 ''x'' 9 (-7)) = Inr (4, 0)"
proof -
  have h: "length (var_y (ex_raster 3 5)) = nrows (Rad (ex_raster 3 5))"
    "length (var_x (ex_raster 3 5)) = ncols (Rad (ex_raster 3 5))"
    "\<exists>a. Some a \<in> set (var_x (ex_raster 3 5))" "\<exists>a. Some a \<in> set (var_y (ex_raster 3 5))"
    by (auto simp: ex_raster_def np_ones_def image_iff intro!: exI[of _ "0::real"] bexI[of _ "0::nat"])
  from locate_within_raster[OF h, of ex_Proj 9 "-7"] obtain xInd yInd
    where l: "locate (ex_raster 3 5) (ex_Proj 1 0 ''x'' 9 (-7)) = Inr (xInd, yInd)"
    by (auto simp: ex_raster_def)
  have "locate (ex_raster 3 5) (ex_Proj 1 0 ''x'' 9 (-7)) = Inr (4, 0)"
    by code_simp
  with h l show ?thesis by simp
qed

subsection \<open>The loop over the timestamps\<close>

lemma main_loop_map: "main_loop buffer Proj ds = map (try_date buffer Proj) ds"
  by (induction ds) simp_all

lemma try_date_samples: "samples (try_date buffer Proj d) = snd (process_date buffer Proj d)"
  by (simp add: try_date_def split: prod.splits option.splits)

lemma try_date_logged:
  "errors_logged (try_date buffer Proj d) =
     (if fst (process_date buffer Proj d) = None then [] else [''Error saving image''])"
  by (auto simp: try_date_def split: prod.splits option.splits)

lemma process_date_failed:
  "fetched d = None \<Longrightarrow> process_date buffer Proj d = (Some RetrievalError, [])"
  by (simp add: process_date_def)

text \<open>
  Claim C4, as the code has it. The run handles every timestamp of the batch, each one as
  if it were alone: an error raised while a timestamp is processed is logged and the run
  goes on with the next timestamp. When the download fails, no sample is saved for the
  timestamp. The samples of a timestamp are those saved before an error, if any, was
  raised.
\<close>

theorem main_loop_isolates_errors:
  "length (main_loop buffer Proj ds) = length ds \<and>
   (\<forall>k<length ds.
      main_loop buffer Proj ds ! k = try_date buffer Proj (ds ! k) \<and>
      samples (main_loop buffer Proj ds ! k) = snd (process_date buffer Proj (ds ! k)) \<and>
      (fst (process_date buffer Proj (ds ! k)) \<noteq> None \<longrightarrow>
         errors_logged (main_loop buffer Proj ds ! k) = [''Error saving image'']) \<and>
      (fetched (ds ! k) = None \<longrightarrow>
         fst (process_date buffer Proj (ds ! k)) = Some RetrievalError \<and>
         samples (main_loop buffer Proj ds ! k) = []))"
  by (simp add: main_loop_map try_date_samples try_date_logged process_date_failed)


theorem main_loop_isolates_errors_witness:
  "length (main_loop 1 ex_Proj [ex_date_failed, ex_date_small]) = 2 \<and>
   samples (main_loop 1 ex_Proj [ex_date_failed, ex_date_small] ! 0) = [] \<and>
   errors_logged (main_loop 1 ex_Proj [ex_date_failed, ex_date_small] ! 0) = [''Error saving image''] \<and>
   main_loop 1 ex_Proj [ex_date_failed, ex_date_small] ! 1 = try_date 1 ex_Proj ex_date_small"
proof -
  have f: "fetched ex_date_failed = None" by (simp add: ex_date_failed_def)
  then have e: "fst (process_date 1 ex_Proj ex_date_failed) \<noteq> None"
    by (simp add: process_date_def)
  have k0: "(0::nat) < length [ex_date_failed, ex_date_small]"
    and k1: "(1::nat) < length [ex_date_failed, ex_date_small]" by simp_all
  note T = main_loop_isolates_errors[of 1 ex_Proj "[ex_date_failed, ex_date_small]"]
  note r0 = T[THEN conjunct2, THEN spec, of 0, THEN mp, OF k0]
  note r1 = T[THEN conjunct2, THEN spec, of 1, THEN mp, OF k1]
  from r0 r1 f e T[THEN conjunct1] show ?thesis by auto
qed

text \<open>
  A raster of 2 by 2 pixels with buffer 1 and a storm centre at pixel (1, 1): the positive
  crop is saved, then the first draw of the negative phase, \<open>randint(1, 1)\<close>, raises
  ValueError. The error is logged, and the timestamp has one saved sample.
\<close>

theorem error_after_saved_sample:
  "fst (process_date 1 ex_Proj ex_date_small) = Some ValueError \<and>
   length (snd (process_date 1 ex_Proj ex_date_small)) = 1 \<and>
   length (samples (hd (main_loop 1 ex_Proj [ex_date_small]))) = 1 \<and>
   errors_logged (hd (main_loop 1 ex_Proj [ex_date_small])) = [''Error saving image'']"
  by code_simp


subsection \<open>Invariants of the two phases\<close>

lemma randint_range: "randint r low high = Inr v \<Longrightarrow> low \<le> v \<and> v < high"
proof -
  assume a: "randint r low high = Inr v"
  then have lt: "low < high" and v: "v = low + int (r mod nat (high - low))"
    by (auto simp: randint_def split: if_splits)
  from lt have "r mod nat (high - low) < nat (high - low)" by simp
  with v lt show ?thesis by linarith
qed

lemma attempt_cases:
  assumes "attempt buffer ds nx ny rng st = Inr st'"
  obtains (rejected) "st' = st\<lparr>attemptCount := attemptCount st + 1\<rparr>"
  | (accepted) xInd yInd where
      "buffer \<le> xInd" "xInd < int nx - buffer" "buffer \<le> yInd" "yInd < int ny - buffer"
      "isFree (free st) yInd xInd buffer"
      "st' = st\<lparr>saved := save_crop False ds xInd yInd buffer (saved st),
                 free := mark (free st) yInd xInd buffer,
                 negativeCount := negativeCount st + 1,
                 attemptCount := attemptCount st + 1\<rparr>"
proof -
  from assms obtain xInd yInd where
    x: "randint (rng (2 * attemptCount st)) buffer (int nx - buffer) = Inr xInd" and
    y: "randint (rng (2 * attemptCount st + 1)) buffer (int ny - buffer) = Inr yInd"
    by (auto simp: attempt_def split: sum.splits)
  show thesis
  proof (cases "isFree (free st) yInd xInd buffer")
    case True
    with assms x y have "st' = st\<lparr>saved := save_crop False ds xInd yInd buffer (saved st),
                 free := mark (free st) yInd xInd buffer,
                 negativeCount := negativeCount st + 1,
                 attemptCount := attemptCount st + 1\<rparr>"
      by (simp add: attempt_def Let_def)
    with True randint_range[OF x] randint_range[OF y] show thesis
      by (intro accepted[of xInd yInd]) simp_all
  next
    case False
    with assms x y have "st' = st\<lparr>attemptCount := attemptCount st + 1\<rparr>"
      by (simp add: attempt_def Let_def)
    then show thesis by (rule rejected)
  qed
qed

lemma positive_phase_invariant:
  assumes step: "\<And>s xInd yInd. P s \<Longrightarrow>
      P (s\<lparr>saved := save_crop True ds (int xInd) (int yInd) buffer (saved s),
           free := mark (free s) (int yInd) (int xInd) buffer\<rparr>)"
    and init: "P st"
  shows "P (snd (positive_phase buffer p ds ts st))"
  using init
proof (induction ts arbitrary: st)
  case Nil
  then show ?case by simp
next
  case (Cons t ts)
  obtain trackLat trackLon where t: "t = (trackLat, trackLon)" by (cases t)
  show ?case
  proof (cases "locate ds (p trackLon trackLat)")
    case (Inl e)
    then show ?thesis using Cons.prems t by simp
  next
    case (Inr xy)
    obtain xInd yInd where xy: "xy = (xInd, yInd)" by (cases xy)
    from Cons.IH[OF step[OF Cons.prems, where xInd=xInd and yInd=yInd]]
    show ?thesis using Inr t xy by simp
  qed
qed

lemma window_dims:
  "nrows a = nrows b \<Longrightarrow> ncols a = ncols b \<Longrightarrow> window a yInd xInd buffer = window b yInd xInd buffer"
  by (simp add: window_def)

lemma crop_image_None_window:
  "crop_image ds xInd yInd buffer = None \<longleftrightarrow> window (Rad ds) yInd xInd buffer = {}"
  by (auto simp: crop_image_def getitem_def window_def Let_def split: prod.splits)

lemma footprints_append [simp]:
  "footprints ds (ss @ [s]) = footprints ds ss \<union> footprint ds s"
  by (auto simp: footprints_def)

lemma save_crop_cases:
  obtains (dropped) "crop_image ds xInd yInd buffer = None"
      "save_crop pos ds xInd yInd buffer ss = ss"
  | (kept) data where "crop_image ds xInd yInd buffer = Some data"
      "save_crop pos ds xInd yInd buffer ss =
         ss @ [\<lparr>positive = pos, s_xInd = xInd, s_yInd = yInd, s_buffer = buffer, s_data = data\<rparr>]"
  by (cases "crop_image ds xInd yInd buffer") (auto simp: save_crop_def)

lemma save_crop_footprints:
  "footprints ds (save_crop pos ds xInd yInd buffer ss)
     = footprints ds ss \<union> window (Rad ds) yInd xInd buffer"
proof (cases rule: save_crop_cases[of ds xInd yInd buffer pos ss])
  case dropped
  then show ?thesis by (simp add: crop_image_None_window)
next
  case (kept data)
  then show ?thesis by (simp add: footprint_def)
qed


lemma slice_bounds_inside:
  assumes "0 \<le> lo" "lo \<le> hi" "hi \<le> int n"
  shows "slice_bounds n (lo, hi) = (nat lo, nat hi)"
  using assms by (auto simp: slice_bounds_def slice_index_def)

lemma crop_image_inside:
  assumes "0 \<le> buffer" "buffer \<le> yInd" "yInd + buffer \<le> int (nrows (Rad ds))"
    "buffer \<le> xInd" "xInd + buffer \<le> int (ncols (Rad ds))"
  shows "(buffer = 0 \<and> crop_image ds xInd yInd buffer = None) \<or>
     (0 < buffer \<and> (\<exists>data. crop_image ds xInd yInd buffer = Some data \<and>
        shape data = (nat (2 * buffer), nat (2 * buffer))))"
proof -
  have r: "slice_bounds (nrows (Rad ds)) (yInd - buffer, yInd + buffer)
      = (nat (yInd - buffer), nat (yInd + buffer))"
    using assms by (intro slice_bounds_inside) simp_all
  have c: "slice_bounds (ncols (Rad ds)) (xInd - buffer, xInd + buffer)
      = (nat (xInd - buffer), nat (xInd + buffer))"
    using assms by (intro slice_bounds_inside) simp_all
  have d: "nat (yInd + buffer) - nat (yInd - buffer) = nat (2 * buffer)"
    "nat (xInd + buffer) - nat (xInd - buffer) = nat (2 * buffer)"
    using assms by linarith+
  show ?thesis
  proof (cases "buffer = 0")
    case True
    with r c show ?thesis by (simp add: crop_image_def getitem_def Let_def)
  next
    case False
    with assms have "0 < buffer" by simp
    then show ?thesis
      by (simp add: crop_image_def getitem_def r c d Let_def shape_def)
  qed
qed

lemma negatives_Nil: "negatives [] = []"
  by (simp add: negatives_def)

lemma negatives_append [simp]: "negatives (ss @ [s]) = negatives ss @ (if positive s then [] else [s])"
  by (simp add: negatives_def)

lemma negatives_save_crop_positive [simp]:
  "negatives (save_crop True ds xInd yInd buffer ss) = negatives ss"
  by (cases rule: save_crop_cases[of ds xInd yInd buffer True ss]) simp_all

lemma set_negatives: "s \<in> set (negatives ss) \<longleftrightarrow> s \<in> set ss \<and> \<not> positive s"
  by (auto simp: negatives_def)

text \<open>What the positive phase leaves of the fresh sampler of a raster.\<close>

lemma positive_phase_initial:
  "negatives (saved (snd (positive_phase buffer p ds ts (initial_sampler ds)))) = [] \<and>
   negativeCount (snd (positive_phase buffer p ds ts (initial_sampler ds))) = 0"
  by (rule positive_phase_invariant) (simp_all add: initial_sampler_def negatives_Nil split: prod.splits)

text \<open>
  The negative samples that a pass of the loop adds, when \<open>nx\<close> is at most the number
  of columns and \<open>ny\<close> at most the number of rows of the raster.
\<close>

lemma attempt_sized:
  assumes b: "0 \<le> buffer" and nx: "nx \<le> ncols (Rad ds)" and ny: "ny \<le> nrows (Rad ds)"
    and st: "sized buffer ds st" and a: "attempt buffer ds nx ny rng st = Inr st'"
  shows "sized buffer ds st'"
  using a
proof (cases rule: attempt_cases)
  case rejected
  with st show ?thesis by (simp add: sized_def)
next
  case (accepted xInd yInd)
  have "yInd + buffer \<le> int (nrows (Rad ds))" "xInd + buffer \<le> int (ncols (Rad ds))"
    using accepted(2,4) nx ny by linarith+
  note ci = crop_image_inside[OF b accepted(3) this(1) accepted(1) this(2)]
  show ?thesis
  proof (cases rule: save_crop_cases[of ds xInd yInd buffer False "saved st"])
    case dropped
    with ci have "buffer = 0" by auto
    with st dropped accepted(6) show ?thesis by (simp add: sized_def)
  next
    case (kept data)
    with ci have "0 < buffer" "shape data = (nat (2 * buffer), nat (2 * buffer))" by auto
    moreover have "inside ds \<lparr>positive = False, s_xInd = xInd, s_yInd = yInd,
        s_buffer = buffer, s_data = data\<rparr>"
      using accepted(1,3) \<open>yInd + buffer \<le> int (nrows (Rad ds))\<close>
        \<open>xInd + buffer \<le> int (ncols (Rad ds))\<close> by (simp add: inside_def)
    ultimately show ?thesis using st kept(2) accepted(6)
      by (auto simp: sized_def full_size_def)
  qed
qed


text \<open>
  On a square raster the draws of the loop are made within the rows and the columns of
  the raster.
\<close>

lemma square_raster_sized:
  assumes sq: "nrows (Rad ds) = ncols (Rad ds)" and b: "0 \<le> buffer"
  shows "sized buffer ds (snd (process_raster buffer Proj ds ts rng))"
proof -
  define p where "p = Proj (satHeight ds) (satLon ds) (satSweep ds)"
  obtain e st1 where r: "positive_phase buffer p ds ts (initial_sampler ds) = (e, st1)"
    by (cases "positive_phase buffer p ds ts (initial_sampler ds)")
  have r0: "negatives (saved st1) = []" "negativeCount st1 = 0"
    using positive_phase_initial[of buffer p ds ts] by (simp_all add: r)
  then have s0: "sized buffer ds st1"
    "sized buffer ds (st1\<lparr>negativeCount := 0, attemptCount := 0\<rparr>)"
    by (simp_all add: sized_def)
  show ?thesis
  proof (cases e)
    case (Some err)
    then have "process_raster buffer Proj ds ts rng = (Some err, st1)"
      by (simp add: process_raster_def shape_def p_def[symmetric] r)
    with s0 show ?thesis by simp
  next
    case None
    then have "process_raster buffer Proj ds ts rng =
        negative_loop buffer ds (nrows (Rad ds)) (ncols (Rad ds)) (length ts) rng
          (st1\<lparr>negativeCount := 0, attemptCount := 0\<rparr>)"
      by (simp add: process_raster_def shape_def p_def[symmetric] r)
    moreover have "sized buffer ds (snd (negative_loop buffer ds (nrows (Rad ds)) (ncols (Rad ds))
          (length ts) rng (st1\<lparr>negativeCount := 0, attemptCount := 0\<rparr>)))"
    proof (rule negative_loop_invariant[where P = "sized buffer ds"])
      show "sized buffer ds (st1\<lparr>negativeCount := 0, attemptCount := 0\<rparr>)" by (rule s0)
    next
      fix s s'
      assume "sized buffer ds s"
        "attempt buffer ds (nrows (Rad ds)) (ncols (Rad ds)) rng s = Inr s'"
      with b sq show "sized buffer ds s'"
        by (intro attempt_sized[of buffer "nrows (Rad ds)" ds "ncols (Rad ds)" s rng s']) simp_all
    qed
    ultimately show ?thesis by simp
  qed
qed


lemma footprint_subset: "s \<in> set ss \<Longrightarrow> footprint ds s \<subseteq> footprints ds ss"
  by (auto simp: footprints_def)

lemma no_overlap_positive: "negatives ss = [] \<Longrightarrow> no_overlap ds ss"
proof -
  assume "negatives ss = []"
  then have "\<forall>s\<in>set ss. positive s"
    by (auto simp: negatives_def filter_empty_conv)
  then show ?thesis by (simp add: no_overlap_def)
qed

lemma no_overlap_append:
  assumes "no_overlap ds ss" and "footprint ds s \<inter> footprints ds ss = {}"
  shows "no_overlap ds (ss @ [s])"
  unfolding no_overlap_def
proof (intro ballI impI)
  fix i j
  assume i: "i \<in> {0..<length (ss @ [s])}" and j: "j \<in> {0..<length (ss @ [s])}"
    and c: "i \<noteq> j \<and> (\<not> positive ((ss @ [s]) ! i) \<or> \<not> positive ((ss @ [s]) ! j))"
  have old: "footprint ds (ss ! k) \<inter> footprint ds s = {}" if "k < length ss" for k
    using footprint_subset[of "ss ! k" ss ds] assms(2) that by (auto simp: nth_mem)
  consider "i < length ss" "j < length ss" | "i < length ss" "j = length ss"
    | "i = length ss" "j < length ss"
    using i j c by (cases "i < length ss"; cases "j < length ss") auto
  then show "footprint ds ((ss @ [s]) ! i) \<inter> footprint ds ((ss @ [s]) ! j) = {}"
  proof cases
    case 1
    with assms(1) c show ?thesis by (auto simp: no_overlap_def nth_append)
  next
    case 2
    with old[of i] show ?thesis by (simp add: nth_append)
  next
    case 3
    with old[of j] show ?thesis by (auto simp: nth_append)
  qed
qed

lemma isFree_disjoint:
  assumes "isFree f yInd xInd buffer"
  shows "window f yInd xInd buffer \<inter> occupied f = {}"
proof -
  have "cell f i j \<noteq> 0" if "(i, j) \<in> window f yInd xInd buffer" for i j
    using assms that by (auto simp: isFree_iff)
  then show ?thesis by (auto simp: mem_occupied)
qed

lemma positive_step_consistent:
  assumes "consistent ds st \<and> negatives (saved st) = []"
  shows "consistent ds (st\<lparr>saved := save_crop True ds xInd yInd buffer (saved st),
            free := mark (free st) yInd xInd buffer\<rparr>) \<and>
         negatives (save_crop True ds xInd yInd buffer (saved st)) = []"
proof -
  from assms have d: "nrows (free st) = nrows (Rad ds)" "ncols (free st) = ncols (Rad ds)"
    and o: "occupied (free st) = footprints ds (saved st)" by (simp_all add: consistent_def)
  have w: "window (free st) yInd xInd buffer = window (Rad ds) yInd xInd buffer"
    using d by (rule window_dims)
  have n: "negatives (save_crop True ds xInd yInd buffer (saved st)) = []"
    using assms by simp
  show ?thesis
    using d o w n by (simp add: consistent_def occupied_mark save_crop_footprints no_overlap_positive)
qed

lemma attempt_consistent:
  assumes c: "consistent ds st" and a: "attempt buffer ds nx ny rng st = Inr st'"
  shows "consistent ds st'"
  using a
proof (cases rule: attempt_cases)
  case rejected
  with c show ?thesis by (simp add: consistent_def)
next
  case (accepted xInd yInd)
  from c have d: "nrows (free st) = nrows (Rad ds)" "ncols (free st) = ncols (Rad ds)"
    and o: "occupied (free st) = footprints ds (saved st)"
    and n: "no_overlap ds (saved st)" by (simp_all add: consistent_def)
  have w: "window (free st) yInd xInd buffer = window (Rad ds) yInd xInd buffer"
    using d by (rule window_dims)
  have dis: "window (Rad ds) yInd xInd buffer \<inter> footprints ds (saved st) = {}"
    using isFree_disjoint[OF accepted(5)] w o by simp
  have "no_overlap ds (save_crop False ds xInd yInd buffer (saved st))"
  proof (cases rule: save_crop_cases[of ds xInd yInd buffer False "saved st"])
    case dropped
    with n show ?thesis by simp
  next
    case (kept data)
    with n dis show ?thesis by (simp add: no_overlap_append footprint_def)
  qed
  with d o w accepted(6) show ?thesis
    by (simp add: consistent_def occupied_mark save_crop_footprints)
qed

lemma initial_sampler_consistent:
  assumes "nrows (Rad ds) = ncols (Rad ds)"
  shows "consistent ds (initial_sampler ds) \<and> negatives (saved (initial_sampler ds)) = []"
  using assms
  by (simp add: consistent_def initial_sampler_def shape_def np_ones_def occupied_def
      footprints_def negatives_Nil no_overlap_def)

text \<open>
  On a square raster the mask has the shape of the raster, and the sampler agrees with
  the raster after every storm centre and after every draw: the marked pixels are the
  pixels of the saved crops, and no negative crop overlaps another crop.
\<close>

lemma square_raster_consistent:
  assumes sq: "nrows (Rad ds) = ncols (Rad ds)"
  shows "consistent ds (snd (process_raster buffer Proj ds ts rng))"
proof -
  define p where "p = Proj (satHeight ds) (satLon ds) (satSweep ds)"
  obtain e st1 where r: "positive_phase buffer p ds ts (initial_sampler ds) = (e, st1)"
    by (cases "positive_phase buffer p ds ts (initial_sampler ds)")
  have "consistent ds (snd (positive_phase buffer p ds ts (initial_sampler ds))) \<and>
      negatives (saved (snd (positive_phase buffer p ds ts (initial_sampler ds)))) = []"
  proof (rule positive_phase_invariant[where P = "\<lambda>s. consistent ds s \<and> negatives (saved s) = []"])
    show "consistent ds (initial_sampler ds) \<and> negatives (saved (initial_sampler ds)) = []"
      by (rule initial_sampler_consistent[OF sq])
  next
    fix s :: "'a sampler" and xInd yInd :: nat
    assume "consistent ds s \<and> negatives (saved s) = []"
    from positive_step_consistent[OF this, where xInd="int xInd" and yInd="int yInd" and buffer=buffer]
    show "consistent ds (s\<lparr>saved := save_crop True ds (int xInd) (int yInd) buffer (saved s),
              free := mark (free s) (int yInd) (int xInd) buffer\<rparr>) \<and>
        negatives (saved (s\<lparr>saved := save_crop True ds (int xInd) (int yInd) buffer (saved s),
              free := mark (free s) (int yInd) (int xInd) buffer\<rparr>)) = []"
      by simp
  qed
  then have c1: "consistent ds st1" by (simp add: r)
  then have c0: "consistent ds (st1\<lparr>negativeCount := 0, attemptCount := 0\<rparr>)"
    by (simp add: consistent_def)
  show ?thesis
  proof (cases e)
    case (Some err)
    then have "process_raster buffer Proj ds ts rng = (Some err, st1)"
      by (simp add: process_raster_def shape_def p_def[symmetric] r)
    with c1 show ?thesis by simp
  next
    case None
    then have "process_raster buffer Proj ds ts rng =
        negative_loop buffer ds (nrows (Rad ds)) (ncols (Rad ds)) (length ts) rng
          (st1\<lparr>negativeCount := 0, attemptCount := 0\<rparr>)"
      by (simp add: process_raster_def shape_def p_def[symmetric] r)
    moreover have "consistent ds (snd (negative_loop buffer ds (nrows (Rad ds)) (ncols (Rad ds))
          (length ts) rng (st1\<lparr>negativeCount := 0, attemptCount := 0\<rparr>)))"
      using attempt_consistent c0 by (rule negative_loop_invariant[where P = "consistent ds"])
    ultimately show ?thesis by simp
  qed
qed


text \<open>
  On a square raster the negative draws stay \<open>buffer\<close> away from the first and the last
  row and column, so that every negative sample lies inside the raster.
\<close>

lemma square_raster_negatives_inside:
  assumes "nrows (Rad ds) = ncols (Rad ds)" and "0 \<le> buffer"
  shows "\<forall>s\<in>set (negatives (saved (snd (process_raster buffer Proj ds ts rng)))). inside ds s"
  using square_raster_sized[OF assms, of Proj ts rng] by (simp add: sized_def)

subsection \<open>The size of the negative crops\<close>

text \<open>
  Claim C10. On a square raster, with a buffer that is not negative, every negative sample
  that is saved has a crop of \<open>2 * buffer\<close> rows and \<open>2 * buffer\<close> columns; and when
  the buffer is positive, every accepted draw has its saved sample.
\<close>

theorem negative_crops_full_size:
  assumes sq: "nrows (Rad ds) = ncols (Rad ds)" and b: "0 \<le> buffer"
  shows "(\<forall>s\<in>set (saved (snd (process_raster buffer Proj ds ts rng))).
            \<not> positive s \<longrightarrow> shape (s_data s) = (nat (2 * buffer), nat (2 * buffer))) \<and>
         (0 < buffer \<longrightarrow>
            length (negatives (saved (snd (process_raster buffer Proj ds ts rng))))
              = negativeCount (snd (process_raster buffer Proj ds ts rng)))"
proof -
  have "sized buffer ds (snd (process_raster buffer Proj ds ts rng))"
    using sq b by (rule square_raster_sized)
  then show ?thesis by (auto simp: sized_def full_size_def set_negatives)
qed

theorem negative_crops_full_size_witness:
  "nrows (Rad (ex_raster 6 6)) = ncols (Rad (ex_raster 6 6)) \<and>
   negativeCount (snd (process_raster 1 ex_Proj (ex_raster 6 6) ex_tracks (rng_const 2))) = 1 \<and>
   map shape (map s_data
     (negatives (saved (snd (process_raster 1 ex_Proj (ex_raster 6 6) ex_tracks (rng_const 2))))))
     = [(2, 2)]"
proof -
  have sq: "nrows (Rad (ex_raster 6 6)) = ncols (Rad (ex_raster 6 6))"
    by (simp add: ex_raster_def np_ones_def)
  have b: "(0::int) \<le> 1" by simp
  note T = negative_crops_full_size[OF sq b, of ex_Proj ex_tracks "rng_const 2"]
  have "negativeCount (snd (process_raster 1 ex_Proj (ex_raster 6 6) ex_tracks (rng_const 2))) = 1"
    "map shape (map s_data
     (negatives (saved (snd (process_raster 1 ex_Proj (ex_raster 6 6) ex_tracks (rng_const 2))))))
     = [(2, 2)]"
    by code_simp+
  with T sq show ?thesis by simp
qed


subsection \<open>Rasters that are not square\<close>

text \<open>
  Claim C5 at a raster of 3 rows and 5 columns, with buffer 1 and a storm centre at pixel
  (1, 1). The rows of the negative draws are drawn below \<open>ny - buffer\<close>, where \<open>ny\<close>
  is the number of columns of the raster: the draw of row 3 and column 1 is accepted, its
  window reaches row 4 of a raster of 3 rows, and the crop that is saved has one row.
\<close>

theorem negative_crop_clipped:
  "shape (Rad (ex_raster 3 5)) = (3, 5) \<and>
   fst (process_raster 1 ex_Proj (ex_raster 3 5) ex_tracks (rng_const 2)) = None \<and>
   map s_yInd (negatives (saved (snd (process_raster 1 ex_Proj (ex_raster 3 5) ex_tracks (rng_const 2))))) = [3] \<and>
   map s_xInd (negatives (saved (snd (process_raster 1 ex_Proj (ex_raster 3 5) ex_tracks (rng_const 2))))) = [1] \<and>
   map shape (map s_data
     (negatives (saved (snd (process_raster 1 ex_Proj (ex_raster 3 5) ex_tracks (rng_const 2))))))
     = [(1, 2)]"
  by code_simp


text \<open>
  Claim C1 at a raster of 3 rows and 5 columns, with buffer 1 and a storm centre at row 1
  and column 4. The mask has 5 rows and 3 columns; the mark of the positive crop, on the
  columns 3 and 4, selects nothing in it. After the negative sample around pixel (1, 1) is
  taken, the marked pixels are those of the negative crop alone, and the pixels of the
  positive crop are not among them.
\<close>

theorem marks_differ_from_footprints:
  "shape (Rad (ex_raster 3 5)) = (3, 5) \<and>
   fst (process_raster 1 ex_Proj (ex_raster 3 5) ex_tracks_edge (rng_const 0)) = None \<and>
   occupied (free (snd (process_raster 1 ex_Proj (ex_raster 3 5) ex_tracks_edge (rng_const 0))))
     = {(0, 0), (0, 1), (1, 0), (1, 1)} \<and>
   footprints (ex_raster 3 5)
       (saved (snd (process_raster 1 ex_Proj (ex_raster 3 5) ex_tracks_edge (rng_const 0))))
     = {(0, 0), (0, 1), (1, 0), (1, 1), (0, 3), (0, 4), (1, 3), (1, 4)}"
  by code_simp



end
